theory Spec2Isabelle
  imports Complex_Main "HOL-Library.Char_ord" "HOL-Library.List_Lexorder"
begin

section \<open>JavaScript values and the string built-ins the program calls\<close>

text \<open>
  The values are those of a JSON document, and \<^verbatim>\<open>undefined\<close>.  Strings are lists of
  code units; the model covers the code units below 256, one \<^typ>\<open>char\<close> each.  A number
  is given by the string \<^verbatim>\<open>Number.prototype.toString\<close> prints for it (\<^verbatim>\<open>"0"\<close> for both
  zeros, \<^verbatim>\<open>"12.5"\<close>, \<^verbatim>\<open>"1e+21"\<close>, \<^verbatim>\<open>"NaN"\<close>), the one thing the program reads of a
  number besides whether it is zero or \<^verbatim>\<open>NaN\<close>.  An object is the list of its own
  properties; none of them is a function.
\<close>

datatype jsval =
    JUndefined
  | JNull
  | JBool bool
  | JNum string
  | JStr string
  | JArr "jsval list"
  | JObj "(string \<times> jsval) list"

datatype js_error = TypeError

definition digit_char :: "nat \<Rightarrow> char" where
  "digit_char d = char_of (48 + d)"

function string_of_nat :: "nat \<Rightarrow> string" where
  "string_of_nat n =
     (if n < 10 then [digit_char n] else string_of_nat (n div 10) @ [digit_char (n mod 10)])"
  by pat_completeness auto
termination
  by (relation "measure (\<lambda>n. n)") auto

declare string_of_nat.simps [simp del]

fun js_join :: "string list \<Rightarrow> string" where
  "js_join [] = []"
| "js_join [x] = x"
| "js_join (x # y # ys) = x @ CHR '','' # js_join (y # ys)"

text \<open>The results of a list of steps, or the first exception one of them throws.\<close>

fun collect :: "('e + 'a) list \<Rightarrow> 'e + 'a list" where
  "collect [] = Inr []"
| "collect (Inl e # rs) = Inl e"
| "collect (Inr x # rs) = (case collect rs of Inl e \<Rightarrow> Inl e | Inr xs \<Rightarrow> Inr (x # xs))"

text \<open>
  \<^verbatim>\<open>String(v)\<close>.  An array is joined with commas, \<^verbatim>\<open>null\<close> and \<^verbatim>\<open>undefined\<close>
  elements giving the empty string and every other element its own string form.  An object
  with no own property \<^verbatim>\<open>toString\<close> inherits the one of \<^verbatim>\<open>Object.prototype\<close>.  An own
  \<^verbatim>\<open>toString\<close> is not a function, so the conversion goes on to \<^verbatim>\<open>valueOf\<close>, which is
  not a function either or returns the object itself, and ends in a \<^verbatim>\<open>TypeError\<close>.
\<close>

fun js_String :: "jsval \<Rightarrow> js_error + string" where
  "js_String JUndefined = Inr ''undefined''"
| "js_String JNull = Inr ''null''"
| "js_String (JBool b) = Inr (if b then ''true'' else ''false'')"
| "js_String (JNum s) = Inr s"
| "js_String (JStr s) = Inr s"
| "js_String (JArr xs) =
     (case collect (map (\<lambda>x. if x = JUndefined \<or> x = JNull then Inr [] else js_String x) xs) of
        Inl e \<Rightarrow> Inl e
      | Inr strs \<Rightarrow> Inr (js_join strs))"
| "js_String (JObj ps) =
     (if ''toString'' \<in> fst ` set ps then Inl TypeError else Inr ''[object Object]'')"

text \<open>\<^verbatim>\<open>!v\<close> is \<open>\<not> js_truthy v\<close>.\<close>

fun js_truthy :: "jsval \<Rightarrow> bool" where
  "js_truthy JUndefined = False"
| "js_truthy JNull = False"
| "js_truthy (JBool b) = b"
| "js_truthy (JNum s) = (s \<noteq> ''0'' \<and> s \<noteq> ''NaN'')"
| "js_truthy (JStr s) = (s \<noteq> [])"
| "js_truthy (JArr xs) = True"
| "js_truthy (JObj ps) = True"

definition is_js_space :: "char \<Rightarrow> bool" where
  "is_js_space c = (of_char c \<in> {9, 10, 11, 12, 13, 32, 160 :: nat})"

definition js_trim :: "string \<Rightarrow> string" where
  "js_trim s = rev (dropWhile is_js_space (rev (dropWhile is_js_space s)))"

definition js_padStart :: "string \<Rightarrow> nat \<Rightarrow> string \<Rightarrow> string" where
  "js_padStart s targetLength padString =
     (if targetLength \<le> length s \<or> padString = [] then s
      else take (targetLength - length s)
             (concat (replicate (targetLength - length s) padString)) @ s)"

definition js_slice :: "string \<Rightarrow> nat \<Rightarrow> nat \<Rightarrow> string" where
  "js_slice s start end = take (end - start) (drop start s)"

definition is_digit :: "char \<Rightarrow> bool" where
  "is_digit c = (c \<in> set ''0123456789'')"

text \<open>The regular expression \<^verbatim>\<open>/^\d{5}$/\<close>.\<close>

definition zip_pattern_test :: "string \<Rightarrow> bool" where
  "zip_pattern_test s = (length s = 5 \<and> list_all is_digit s)"


section \<open>The lookup table and the client-side \<^verbatim>\<open>ZipFill\<close> class\<close>

record location =
  city :: string
  state :: string
  county :: string

text \<open>A value of the data artifact: a single location object, or an array of them.\<close>

datatype entry = Single location | Many "location list"

type_synonym table = "string \<rightharpoonup> entry"

record lookup_result =
  zipcode :: string
  locations :: "location list"
  hasMultiple :: bool

datatype load_error = HttpStatus nat | FetchRejected | JsonRejected

datatype promise = Pending | Fulfilled | Rejected load_error

record ZipFill =
  data :: "table option"
  loaded :: bool
  loadPromise :: "promise option"

definition ZipFill_new :: "table option \<Rightarrow> ZipFill" where
  "ZipFill_new d = \<lparr>data = d, loaded = False, loadPromise = None\<rparr>"

text \<open>\<^verbatim>\<open>lookup\<close> returns a result or \<^verbatim>\<open>null\<close> (\<open>Inr\<close>), or throws (\<open>Inl\<close>).\<close>

definition lookup :: "ZipFill \<Rightarrow> jsval \<Rightarrow> js_error + lookup_result option" where
  "lookup this z =
     (if \<not> loaded this \<or> data this = None then Inr None
      else case js_String z of
        Inl e \<Rightarrow> Inl e
      | Inr str \<Rightarrow>
          (let normalizedZip = js_slice (js_padStart (js_trim str) 5 ''0'') 0 5
           in if \<not> zip_pattern_test normalizedZip then Inr None
              else case the (data this) normalizedZip of
                     None \<Rightarrow> Inr None
                   | Some locs \<Rightarrow>
                       Inr (Some
                         \<lparr>zipcode = normalizedZip,
                          locations = (case locs of Many ls \<Rightarrow> ls | Single l \<Rightarrow> [l]),
                          hasMultiple =
                            (case locs of Many ls \<Rightarrow> 1 < length ls | Single l \<Rightarrow> False)\<rparr>)))"

text \<open>
  The normalization inside \<^verbatim>\<open>lookup\<close>, on its own: the string \<^verbatim>\<open>normalizedZip\<close> when
  it passes the test that follows it, \<open>None\<close> where \<^verbatim>\<open>lookup\<close> returns \<^verbatim>\<open>null\<close> for an
  invalid code.
\<close>

definition lookup_normalize :: "jsval \<Rightarrow> js_error + string option" where
  "lookup_normalize z =
     (case js_String z of
        Inl e \<Rightarrow> Inl e
      | Inr str \<Rightarrow>
          (let normalizedZip = js_slice (js_padStart (js_trim str) 5 ''0'') 0 5
           in if \<not> zip_pattern_test normalizedZip then Inr None else Inr (Some normalizedZip)))"

subsection \<open>\<^verbatim>\<open>load\<close>\<close>

text \<open>
  A call of \<^verbatim>\<open>load\<close> runs up to its first \<^verbatim>\<open>await\<close>: it says which promise the
  caller gets, whether \<^verbatim>\<open>fetch\<close> was called, and the state it leaves.  When the request
  settles, the rest of the inner function runs: \<open>fetch_settles\<close>.
\<close>

record load_call =
  returned :: promise
  fetch_called :: bool
  after :: ZipFill

definition load :: "ZipFill \<Rightarrow> load_call" where
  "load this =
     (if loaded this then \<lparr>returned = Fulfilled, fetch_called = False, after = this\<rparr>
      else case loadPromise this of
        Some p \<Rightarrow> \<lparr>returned = p, fetch_called = False, after = this\<rparr>
      | None \<Rightarrow>
          (if data this \<noteq> None
           then \<lparr>returned = Fulfilled, fetch_called = False,
                 after = this\<lparr>loaded := True, loadPromise := Some Fulfilled\<rparr>\<rparr>
           else \<lparr>returned = Pending, fetch_called = True,
                 after = this\<lparr>loadPromise := Some Pending\<rparr>\<rparr>))"

datatype fetch_outcome = Json table | Failure load_error

definition fetch_settles :: "fetch_outcome \<Rightarrow> ZipFill \<Rightarrow> ZipFill" where
  "fetch_settles outcome this =
     (if loadPromise this \<noteq> Some Pending then this
      else case outcome of
        Json d \<Rightarrow> this\<lparr>data := Some d, loaded := True, loadPromise := Some Fulfilled\<rparr>
      | Failure e \<Rightarrow> this\<lparr>loadPromise := Some (Rejected e)\<rparr>)"

section \<open>The server\<close>

definition normalizeZip :: "jsval \<Rightarrow> js_error + string option" where
  "normalizeZip z =
     (if \<not> js_truthy z then Inr None
      else case js_String z of
        Inl e \<Rightarrow> Inl e
      | Inr str \<Rightarrow>
          (let normalized = js_slice (js_padStart (js_trim str) 5 ''0'') 0 5
           in if zip_pattern_test normalized then Inr (Some normalized) else Inr None))"

text \<open>What \<^verbatim>\<open>lookupZip\<close> returns: a result, or the descriptor \<^verbatim>\<open>{error, zip}\<close>.\<close>

datatype lookup_failure = Invalid_zip_code_format | Zip_code_not_found

definition error_message :: "lookup_failure \<Rightarrow> string" where
  "error_message f =
     (case f of Invalid_zip_code_format \<Rightarrow> ''Invalid zip code format''
      | Zip_code_not_found \<Rightarrow> ''Zip code not found'')"

datatype lookupZip_result = Found lookup_result | ErrorDescriptor lookup_failure jsval

definition lookupZip :: "table \<Rightarrow> jsval \<Rightarrow> js_error + lookupZip_result" where
  "lookupZip zipData z =
     (case normalizeZip z of
        Inl e \<Rightarrow> Inl e
      | Inr None \<Rightarrow> Inr (ErrorDescriptor Invalid_zip_code_format z)
      | Inr (Some normalized) \<Rightarrow>
          (case zipData normalized of
             None \<Rightarrow> Inr (ErrorDescriptor Zip_code_not_found (JStr normalized))
           | Some locs \<Rightarrow>
               Inr (Found
                 \<lparr>zipcode = normalized,
                  locations = (case locs of Many ls \<Rightarrow> ls | Single l \<Rightarrow> [l]),
                  hasMultiple =
                    (case locs of Many ls \<Rightarrow> 1 < length ls | Single l \<Rightarrow> False)\<rparr>)))"

text \<open>
  \<^verbatim>\<open>POST /api/batch\<close>; \<open>zips\<close> is \<^verbatim>\<open>req.body.zips\<close>, \<open>JUndefined\<close> when the body has
  none.  The file installs no error handler: when the handler throws, the framework's own
  answers with status 500.
\<close>

datatype batch_response =
    Status400 string
  | Status200 "lookupZip_result list"
  | Status500 js_error

fun Array_isArray :: "jsval \<Rightarrow> bool" where
  "Array_isArray (JArr xs) = True"
| "Array_isArray _ = False"

fun elements :: "jsval \<Rightarrow> jsval list" where
  "elements (JArr xs) = xs"
| "elements _ = []"

definition post_api_batch :: "table \<Rightarrow> jsval \<Rightarrow> batch_response" where
  "post_api_batch zipData zips =
     (if \<not> js_truthy zips \<or> \<not> Array_isArray zips
      then Status400 ''Missing or invalid zips array''
      else if 100 < length (elements zips)
      then Status400 ''Maximum 100 zips per request''
      else case collect (map (lookupZip zipData) (elements zips)) of
             Inl e \<Rightarrow> Status500 e
           | Inr results \<Rightarrow> Status200 results)"

text \<open>
  The normalization of the specification, step by step, from the string form of the value:
  trimmed; zeros in front until the length is at least 5; the first 5 characters; valid
  when these are exactly 5 decimal digits.
\<close>

definition spec_normalize :: "string \<Rightarrow> string option" where
  "spec_normalize str =
     (let trimmed = js_trim str;
          padded = replicate (5 - length trimmed) CHR ''0'' @ trimmed;
          cut = take 5 padded
      in if length cut = 5 \<and> (\<forall>c \<in> set cut. c \<in> set ''0123456789'') then Some cut else None)"


section \<open>Objects used as dictionaries\<close>

text \<open>
  An object is the list of its own properties in the order \<^verbatim>\<open>Object.keys\<close> and
  \<^verbatim>\<open>Object.entries\<close> enumerate them: first the keys that are array indices (canonical
  decimal numerals below 2^32 - 1), in ascending numeric order, then the other keys in the
  order they were first written.  No key occurs twice.
\<close>

type_synonym 'v jsobject = "(string \<times> 'v) list"

definition index_value :: "string \<Rightarrow> int" where
  "index_value k = foldl (\<lambda>a c. 10 * a + (of_char c - 48)) 0 k"

definition is_array_index :: "string \<Rightarrow> bool" where
  "is_array_index k =
     (k \<noteq> [] \<and> list_all is_digit k \<and> (hd k = CHR ''0'' \<longrightarrow> k = ''0'')
      \<and> index_value k < 4294967295)"

definition Object_keys :: "'v jsobject \<Rightarrow> string list" where
  "Object_keys obj = map fst obj"

definition obj_get :: "'v jsobject \<Rightarrow> string \<Rightarrow> 'v option" where
  "obj_get obj k = map_of obj k"

fun place_index :: "string \<Rightarrow> 'v \<Rightarrow> 'v jsobject \<Rightarrow> 'v jsobject" where
  "place_index k v [] = [(k, v)]"
| "place_index k v ((k', v') # rest) =
     (if is_array_index k' \<and> index_value k' < index_value k
      then (k', v') # place_index k v rest
      else (k, v) # (k', v') # rest)"

definition obj_set :: "'v jsobject \<Rightarrow> string \<Rightarrow> 'v \<Rightarrow> 'v jsobject" where
  "obj_set obj k v =
     (if k \<in> set (Object_keys obj)
      then map (\<lambda>(k', v'). if k' = k then (k', v) else (k', v')) obj
      else if is_array_index k then place_index k v obj
      else obj @ [(k, v)])"

definition obj_delete :: "'v jsobject \<Rightarrow> string \<Rightarrow> 'v jsobject" where
  "obj_delete obj k = filter (\<lambda>(k', v'). k' \<noteq> k) obj"

definition Object_fromEntries :: "(string \<times> 'v) list \<Rightarrow> 'v jsobject" where
  "Object_fromEntries entries = foldl (\<lambda>obj (k, v). obj_set obj k v) [] entries"

text \<open>\<^verbatim>\<open>obj[k] = (obj[k] || 0) + 1\<close>\<close>

definition bump :: "nat jsobject \<Rightarrow> string \<Rightarrow> nat jsobject" where
  "bump obj k =
     obj_set obj k ((case obj_get obj k of None \<Rightarrow> 0 | Some c \<Rightarrow> if c = 0 then 0 else c) + 1)"

section \<open>The metrics module\<close>

text \<open>
  The fields of \<^verbatim>\<open>this.requests\<close>, \<^verbatim>\<open>this.responseTimes\<close> and \<^verbatim>\<open>this.lookups\<close> carry
  the name of their group in front.  \<^verbatim>\<open>startTime\<close> is read by the summary only and is
  left out.  The hour of the clock, \<^verbatim>\<open>_getCurrentHour()\<close>, is an argument of
  \<open>recordRequest\<close>.
\<close>

text \<open>The value of an hourly bucket: an integer, or \<^verbatim>\<open>NaN\<close>.\<close>

datatype jsnumber = NaN | Finite int

record Metrics =
  requests_total :: nat
  requests_byEndpoint :: "nat jsobject"
  requests_byStatus :: "nat jsobject"
  requests_byMethod :: "nat jsobject"
  responseTimes_total :: "int list"
  responseTimes_byEndpoint :: "int list jsobject"
  lookups_total :: nat
  lookups_found :: nat
  lookups_notFound :: nat
  lookups_topZips :: "nat jsobject"
  lookups_topStates :: "nat jsobject"
  hourlyRequests :: "jsnumber jsobject"
  maxResponseTimes :: nat

definition Metrics_new :: Metrics where
  "Metrics_new =
     \<lparr>requests_total = 0, requests_byEndpoint = [], requests_byStatus = [],
      requests_byMethod = [], responseTimes_total = [], responseTimes_byEndpoint = [],
      lookups_total = 0, lookups_found = 0, lookups_notFound = 0, lookups_topZips = [],
      lookups_topStates = [], hourlyRequests = [], maxResponseTimes = 1000\<rparr>"

text \<open>\<^verbatim>\<open>path.replace(/\/api\/lookup\/\d+/, '/api/lookup/:zip')\<close>: the leftmost match, with
  all the digits that follow.\<close>

fun normalizeEndpoint :: "string \<Rightarrow> string" where
  "normalizeEndpoint [] = []"
| "normalizeEndpoint (c # cs) =
     (let rest = drop 12 (c # cs)
      in if take 12 (c # cs) = ''/api/lookup/'' \<and> rest \<noteq> [] \<and> is_digit (hd rest)
         then ''/api/lookup/:zip'' @ dropWhile is_digit rest
         else c # normalizeEndpoint cs)"

text \<open>The loop of \<^verbatim>\<open>_cleanOldHours\<close>: \<^verbatim>\<open>keys.shift()\<close> takes the first key off.\<close>

function clean_loop :: "string list \<Rightarrow> 'v jsobject \<Rightarrow> 'v jsobject" where
  "clean_loop keys obj =
     (if 168 < length keys then clean_loop (tl keys) (obj_delete obj (hd keys)) else obj)"
  by pat_completeness auto
termination
  by (relation "measure (\<lambda>(keys, obj). length keys)") auto

definition cleanOldHours :: "'v jsobject \<Rightarrow> 'v jsobject" where
  "cleanOldHours hourly = clean_loop (sort (Object_keys hourly)) hourly"

text \<open>\<^verbatim>\<open>!x\<close> and \<^verbatim>\<open>x++\<close> on the value read from a bucket, \<open>None\<close> being
  \<^verbatim>\<open>undefined\<close>.\<close>

fun bucket_falsy :: "jsnumber option \<Rightarrow> bool" where
  "bucket_falsy None = True"
| "bucket_falsy (Some NaN) = True"
| "bucket_falsy (Some (Finite n)) = (n = 0)"

fun incremented :: "jsnumber option \<Rightarrow> jsnumber" where
  "incremented None = NaN"
| "incremented (Some NaN) = NaN"
| "incremented (Some (Finite n)) = Finite (n + 1)"

definition hourly_tracking :: "string \<Rightarrow> jsnumber jsobject \<Rightarrow> jsnumber jsobject" where
  "hourly_tracking hour hourly =
     (let hourly1 =
            (if bucket_falsy (obj_get hourly hour)
             then cleanOldHours (obj_set hourly hour (Finite 0))
             else hourly)
      in obj_set hourly1 hour (incremented (obj_get hourly1 hour)))"

record request =
  path :: string
  http_method :: string

text \<open>A status code is an integer of three digits; as a key it is its decimal numeral.\<close>

record response =
  statusCode :: nat

definition push_capped :: "nat \<Rightarrow> 'a list \<Rightarrow> 'a \<Rightarrow> 'a list" where
  "push_capped cap xs x = (let ys = xs @ [x] in if cap < length ys then tl ys else ys)"

definition recordRequest :: "request \<Rightarrow> response \<Rightarrow> int \<Rightarrow> string \<Rightarrow> Metrics \<Rightarrow> Metrics" where
  "recordRequest req res responseTimeMs hour this =
     (let endpoint = normalizeEndpoint (path req);
          times = (case obj_get (responseTimes_byEndpoint this) endpoint of
                     None \<Rightarrow> [] | Some ts \<Rightarrow> ts)
      in this
         \<lparr>requests_total := requests_total this + 1,
          requests_byEndpoint := bump (requests_byEndpoint this) endpoint,
          requests_byStatus :=
            bump (requests_byStatus this) (string_of_nat (statusCode res)),
          requests_byMethod := bump (requests_byMethod this) (http_method req),
          hourlyRequests := hourly_tracking hour (hourlyRequests this),
          responseTimes_total :=
            push_capped (maxResponseTimes this) (responseTimes_total this) responseTimeMs,
          responseTimes_byEndpoint :=
            obj_set (responseTimes_byEndpoint this) endpoint
              (push_capped 100 times responseTimeMs)\<rparr>)"

text \<open>\<^verbatim>\<open>_pruneTopZips\<close>: the sort is stable and puts the larger counts first.\<close>

definition pruneTopZips :: "nat jsobject \<Rightarrow> nat jsobject" where
  "pruneTopZips topZips =
     Object_fromEntries (take 500 (sort_key (\<lambda>(k, c). - int c) topZips))"

text \<open>The \<^verbatim>\<open>result\<close> handed to \<^verbatim>\<open>recordLookup\<close> is \<^verbatim>\<open>null\<close> or what a lookup
  returned; \<open>result_error\<close> and \<open>result_locations\<close> read its fields, \<open>None\<close> being
  \<^verbatim>\<open>undefined\<close>.\<close>

fun result_error :: "lookupZip_result \<Rightarrow> string option" where
  "result_error (Found r) = None"
| "result_error (ErrorDescriptor f z) = Some (error_message f)"

fun result_locations :: "lookupZip_result \<Rightarrow> location list option" where
  "result_locations (Found r) = Some (locations r)"
| "result_locations (ErrorDescriptor f z) = None"

definition result_found :: "lookupZip_result option \<Rightarrow> bool" where
  "result_found result =
     (case result of
        None \<Rightarrow> False
      | Some r \<Rightarrow> (case result_error r of None \<Rightarrow> True | Some e \<Rightarrow> e = []))"

definition recordLookup :: "string \<Rightarrow> lookupZip_result option \<Rightarrow> Metrics \<Rightarrow> Metrics" where
  "recordLookup z result this =
     (let this1 = this\<lparr>lookups_total := lookups_total this + 1\<rparr>
      in if result_found result
         then let this2 = this1\<lparr>lookups_found := lookups_found this1 + 1,
                               lookups_topZips := bump (lookups_topZips this1) z\<rparr>;
                  this3 = (case result_locations (the result) of
                             Some (l # ls) \<Rightarrow>
                               this2\<lparr>lookups_topStates :=
                                        bump (lookups_topStates this2) (state l)\<rparr>
                           | _ \<Rightarrow> this2)
              in if 1000 < length (Object_keys (lookups_topZips this3))
                 then this3\<lparr>lookups_topZips := pruneTopZips (lookups_topZips this3)\<rparr>
                 else this3
         else this1\<lparr>lookups_notFound := lookups_notFound this1 + 1\<rparr>)"

subsection \<open>Double precision\<close>

text \<open>
  A finite double is the rational number it stands for.  \<open>round_double\<close> is the rounding
  of every arithmetic operation: to the nearest number with 53 significant bits, a tie
  going to the even one; below 2^-1022 the numbers are 2^-1074 apart.  The exponent of a
  positive \<open>x\<close> is the \<open>e\<close> with 2^e \<le> x < 2^(e+1).
\<close>

function bit_length :: "int \<Rightarrow> int" where
  "bit_length n = (if n \<le> 0 then 0 else 1 + bit_length (n div 2))"
  by pat_completeness auto
termination
  by (relation "measure (\<lambda>n. nat n)") auto

declare bit_length.simps [simp del]

definition pow2 :: "int \<Rightarrow> rat" where
  "pow2 e = (if 0 \<le> e then 2 ^ nat e else 1 / 2 ^ nat (- e))"

definition exponent :: "rat \<Rightarrow> int" where
  "exponent x =
     (let (a, b) = quotient_of x;
          d = bit_length a - bit_length b
      in if pow2 d \<le> x then d else d - 1)"

definition round_half_even :: "rat \<Rightarrow> int" where
  "round_half_even q =
     (let f = \<lfloor>q\<rfloor>; r = q - of_int f
      in if r < 1 / 2 then f else if 1 / 2 < r then f + 1 else if even f then f else f + 1)"

definition round_double :: "rat \<Rightarrow> rat" where
  "round_double x =
     (if x = 0 then 0
      else let e = max (exponent \<bar>x\<bar>) (- 1022); ulp = pow2 (e - 52)
           in sgn x * of_int (round_half_even (\<bar>x\<bar> / ulp)) * ulp)"

text \<open>
  \<^verbatim>\<open>_percentile\<close>.  The samples are of any linearly ordered type with a zero; \<open>p\<close> is
  a finite double.  The quotient \<^verbatim>\<open>p / 100\<close> and the product with \<^verbatim>\<open>sorted.length\<close> are
  each rounded.  Reading an array past its end gives \<^verbatim>\<open>undefined\<close>, here \<open>None\<close>.  A
  product beyond the largest double is an infinity in the program and a large number here:
  either way the index is past the end of the array, or below zero and raised to 0.
\<close>

definition percentile :: "'a::{linorder, zero} list \<Rightarrow> rat \<Rightarrow> 'a option" where
  "percentile arr p =
     (if length arr = 0 then Some 0
      else let sorted = sort arr;
               idx = \<lceil>round_double (round_double (p / 100) * of_nat (length sorted))\<rceil> - 1;
               i = nat (max 0 idx)
           in if i < length sorted then Some (sorted ! i) else None)"

text \<open>The index of the specification: the same expression in exact arithmetic.\<close>

definition spec_percentile_index :: "rat \<Rightarrow> nat \<Rightarrow> nat" where
  "spec_percentile_index p count = nat (max 0 (\<lceil>(p / 100) * of_nat count\<rceil> - 1))"

text \<open>Sequences of calls on one instance, the earliest first.\<close>

definition recordLookups :: "(string \<times> lookupZip_result option) list \<Rightarrow> Metrics \<Rightarrow> Metrics" where
  "recordLookups calls this = foldl (\<lambda>m (z, result). recordLookup z result m) this calls"

definition recordRequests ::
    "(request \<times> response \<times> int \<times> string) list \<Rightarrow> Metrics \<Rightarrow> Metrics" where
  "recordRequests calls this =
     foldl (\<lambda>m (req, res, responseTimeMs, hour). recordRequest req res responseTimeMs hour m)
       this calls"

definition hour_of :: "request \<times> response \<times> int \<times> string \<Rightarrow> string" where
  "hour_of call = snd (snd (snd call))"

text \<open>What holds of the buckets while the clock does not run backwards: no key twice, at
  most 168 keys, each an hour already seen, each count a positive integer.\<close>

definition buckets_ok :: "string set \<Rightarrow> jsnumber jsobject \<Rightarrow> bool" where
  "buckets_ok seen obj \<longleftrightarrow>
     distinct (Object_keys obj) \<and> length obj \<le> 168 \<and> set (Object_keys obj) \<subseteq> seen
     \<and> (\<forall>k v. obj_get obj k = Some v \<longrightarrow> (\<exists>n. v = Finite n \<and> 0 < n))"

section \<open>Example data\<close>

definition schenectady :: location where
  "schenectady = \<lparr>city = ''Schenectady'', state = ''NY'', county = ''Schenectady''\<rparr>"

definition rotterdam :: location where
  "rotterdam = \<lparr>city = ''Rotterdam'', state = ''NY'', county = ''Schenectady''\<rparr>"

definition beverly_hills :: location where
  "beverly_hills = \<lparr>city = ''Beverly Hills'', state = ''CA'', county = ''Los Angeles''\<rparr>"

definition example_table :: table where
  "example_table =
     [''12345'' \<mapsto> Many [schenectady, rotterdam], ''90210'' \<mapsto> Single beverly_hills]"

text \<open>An instance that has counted one lookup for each of the codes 10000 to 10999.\<close>

definition thousand_zips :: "nat jsobject" where
  "thousand_zips = map (\<lambda>i. (string_of_nat i, 1)) [10000..<11000]"

definition busy_metrics :: Metrics where
  "busy_metrics = Metrics_new\<lparr>lookups_topZips := thousand_zips\<rparr>"

text \<open>An instance that has counted one request in each hour of the first week of June 2025.\<close>

definition two_digits :: "nat \<Rightarrow> string" where
  "two_digits n = (if n < 10 then CHR ''0'' # string_of_nat n else string_of_nat n)"

definition hour_key :: "nat \<Rightarrow> nat \<Rightarrow> string" where
  "hour_key d h = ''2025-06-'' @ two_digits d @ CHR ''T'' # two_digits h"

definition week_of_hours :: "jsnumber jsobject" where
  "week_of_hours = concat (map (\<lambda>d. map (\<lambda>h. (hour_key d h, Finite 1)) [0..<24]) [1..<8])"

text \<open>A table whose only key holds an empty array.\<close>

definition empty_array_table :: table where
  "empty_array_table = [''12345'' \<mapsto> Many []]"

text \<open>The value of the JSON text \<^verbatim>\<open>{"toString": "x"}\<close>.\<close>

definition unconvertible :: jsval where
  "unconvertible = JObj [(''toString'', JStr ''x'')]"

text \<open>The samples 1, 2, ..., 100.\<close>

definition hundred_samples :: "int list" where
  "hundred_samples = [1..100]"

text \<open>One request in each hour of that week, the earliest first, on a fresh instance.\<close>

definition health_call :: "string \<Rightarrow> request \<times> response \<times> int \<times> string" where
  "health_call hour = (\<lparr>path = ''/health'', http_method = ''GET''\<rparr>, \<lparr>statusCode = 200\<rparr>, 3, hour)"

definition week_calls :: "(request \<times> response \<times> int \<times> string) list" where
  "week_calls = map health_call (Object_keys week_of_hours)"

text \<open>A fresh instance whose first \<^verbatim>\<open>load\<close> has failed on the network.\<close>

definition failed_once :: ZipFill where
  "failed_once = fetch_settles (Failure FetchRejected) (after (load (ZipFill_new None)))"

section \<open>Normalization\<close>

lemma concat_replicate_char: "concat (replicate n [c]) = replicate n c"
  by (induction n) simp_all

lemma padStart_zero: "js_padStart s 5 ''0'' = replicate (5 - length s) CHR ''0'' @ s"
  by (simp add: js_padStart_def concat_replicate_char)

lemma normalized_eq:
  "js_slice (js_padStart (js_trim str) 5 ''0'') 0 5 =
     take 5 (replicate (5 - length (js_trim str)) CHR ''0'' @ js_trim str)"
  by (simp add: js_slice_def padStart_zero)

lemma zip_pattern_test_iff:
  "zip_pattern_test s \<longleftrightarrow> length s = 5 \<and> (\<forall>c \<in> set s. c \<in> set ''0123456789'')"
  by (simp add: zip_pattern_test_def list_all_iff is_digit_def)

lemma lookup_normalize_spec:
  "js_String v = Inr str \<Longrightarrow> lookup_normalize v = Inr (spec_normalize str)"
  unfolding lookup_normalize_def spec_normalize_def Let_def zip_pattern_test_iff normalized_eq
  by simp

lemma normalizeZip_lookup_normalize:
  "normalizeZip v = (if js_truthy v then lookup_normalize v else Inr None)"
  by (simp add: normalizeZip_def lookup_normalize_def Let_def split: sum.splits)

lemma lookup_normalize_Some:
  "lookup_normalize v = Inr (Some z) \<Longrightarrow> length z = 5 \<and> list_all is_digit z"
  by (auto simp: lookup_normalize_def zip_pattern_test_def Let_def split: sum.splits if_splits)

lemma falsy_cases:
  "\<not> js_truthy v \<longleftrightarrow>
     v = JUndefined \<or> v = JNull \<or> v = JBool False \<or> v = JNum ''NaN'' \<or> v = JNum ''0''
     \<or> v = JStr []"
  by (cases v rule: js_truthy.cases) auto

lemma lookup_normalize_falsy:
  "lookup_normalize JUndefined = Inr None" "lookup_normalize JNull = Inr None"
  "lookup_normalize (JBool False) = Inr None" "lookup_normalize (JNum ''NaN'') = Inr None"
  "lookup_normalize (JNum ''0'') = Inr (Some ''00000'')"
  "lookup_normalize (JStr []) = Inr (Some ''00000'')"
  by code_simp+

lemma normalize_examples:
  "lookup_normalize (JStr ''90210'') = Inr (Some ''90210'')"
  "lookup_normalize (JStr ''123'') = Inr (Some ''00123'')"
  "lookup_normalize (JStr ''1234567'') = Inr (Some ''12345'')"
  "lookup_normalize (JStr ''abc12'') = Inr None"
  by code_simp+

text \<open>
  C1, as the code has it.  Take an input value that \<^verbatim>\<open>String()\<close> converts to a string.
  The normalization inside \<^verbatim>\<open>ZipFill.lookup\<close> is the four steps of the specification
  on that string.  \<^verbatim>\<open>normalizeZip\<close> on the server takes the same four steps when the
  value is truthy and signals invalid, before any of them, when it is falsy (the empty
  string, 0, \<^verbatim>\<open>NaN\<close>, \<^verbatim>\<open>null\<close>, \<^verbatim>\<open>undefined\<close>, \<^verbatim>\<open>false\<close>).  Either one returns a
  string of 5 decimal digits or signals invalid.  Both send "90210" to "90210", "123" to
  "00123", "1234567" to "12345" (cut, not rejected), and find "abc12" invalid.
\<close>

theorem normalization_steps:
  assumes "js_String s = Inr str"
  shows "lookup_normalize s = Inr (spec_normalize str)
   \<and> normalizeZip s = Inr (if js_truthy s then spec_normalize str else None)
   \<and> (\<forall>z. lookup_normalize s = Inr (Some z) \<or> normalizeZip s = Inr (Some z)
          \<longrightarrow> length z = 5 \<and> list_all is_digit z)
   \<and> lookup_normalize (JStr ''90210'') = Inr (Some ''90210'')
   \<and> normalizeZip (JStr ''90210'') = Inr (Some ''90210'')
   \<and> lookup_normalize (JStr ''123'') = Inr (Some ''00123'')
   \<and> normalizeZip (JStr ''123'') = Inr (Some ''00123'')
   \<and> lookup_normalize (JStr ''1234567'') = Inr (Some ''12345'')
   \<and> normalizeZip (JStr ''1234567'') = Inr (Some ''12345'')
   \<and> lookup_normalize (JStr ''abc12'') = Inr None
   \<and> normalizeZip (JStr ''abc12'') = Inr None"
proof -
  have "length z = 5 \<and> list_all is_digit z"
    if "lookup_normalize s = Inr (Some z) \<or> normalizeZip s = Inr (Some z)" for z
    using that lookup_normalize_Some [of s z]
    by (auto simp: normalizeZip_lookup_normalize split: if_splits)
  then show ?thesis
    using lookup_normalize_spec [OF assms]
    by (simp add: normalizeZip_lookup_normalize normalize_examples)
qed

theorem normalization_steps_witness:
  "js_String (JNum ''501'') = Inr ''501''
   \<and> js_truthy (JNum ''501'')
   \<and> spec_normalize ''501'' = Some ''00501''
   \<and> normalizeZip (JNum ''501'') = Inr (Some ''00501'')
   \<and> lookup_normalize (JNum ''501'') = Inr (Some ''00501'')
   \<and> length ''00501'' = 5 \<and> list_all is_digit ''00501''"
proof -
  have h: "js_String (JNum ''501'') = Inr ''501''"
    by simp
  have n: "spec_normalize ''501'' = Some ''00501''"
    by code_simp
  show ?thesis
    using normalization_steps [OF h] n by (simp add: is_digit_def)
qed

text \<open>
  C1 as stated fails for \<^verbatim>\<open>normalizeZip\<close> at the empty string: the four steps give
  "00000", \<^verbatim>\<open>normalizeZip\<close> signals invalid.
\<close>

theorem normalizeZip_empty_string_counterexample:
  "js_String (JStr []) = Inr [] \<and> spec_normalize [] = Some ''00000''
   \<and> normalizeZip (JStr []) = Inr None"
  by code_simp

text \<open>
  C3, as the code has it.  On every input value other than the empty string and the
  number 0, the normalization inside \<^verbatim>\<open>ZipFill.lookup\<close> and \<^verbatim>\<open>normalizeZip\<close> agree:
  both give the same 5-digit string or both signal invalid (or both throw the same
  exception).  At the empty string and at 0 the client gives "00000" and
  \<^verbatim>\<open>normalizeZip\<close>, which turns falsy values away first, signals invalid.
\<close>

theorem normalizers_agree_off_empty_and_zero:
  "(v \<noteq> JStr [] \<and> v \<noteq> JNum ''0'' \<longrightarrow> normalizeZip v = lookup_normalize v)
   \<and> (v = JStr [] \<or> v = JNum ''0''
        \<longrightarrow> lookup_normalize v = Inr (Some ''00000'') \<and> normalizeZip v = Inr None)"
proof (cases "js_truthy v")
  case True
  then have "v \<noteq> JStr []" "v \<noteq> JNum ''0''"
    by auto
  with True show ?thesis
    by (simp add: normalizeZip_lookup_normalize)
next
  case False
  then show ?thesis
    unfolding falsy_cases
    by (auto simp: normalizeZip_lookup_normalize lookup_normalize_falsy)
qed

theorem normalizers_agree_witness:
  "JStr '' 90210 '' \<noteq> JStr [] \<and> JStr '' 90210 '' \<noteq> JNum ''0''
   \<and> lookup_normalize (JStr '' 90210 '') = Inr (Some ''90210'')
   \<and> normalizeZip (JStr '' 90210 '') = Inr (Some ''90210'')"
proof -
  have n: "lookup_normalize (JStr '' 90210 '') = Inr (Some ''90210'')"
    by code_simp
  show ?thesis
    using normalizers_agree_off_empty_and_zero [of "JStr '' 90210 ''"] n by simp
qed

text \<open>C3 as stated fails at the number 0: the client accepts it as "00000", the server
  signals invalid.\<close>

theorem normalizers_differ_at_zero_counterexample:
  "lookup_normalize (JNum ''0'') = Inr (Some ''00000'') \<and> normalizeZip (JNum ''0'') = Inr None"
  by code_simp

section \<open>Lookup\<close>

lemma digit_not_space: "is_digit c \<Longrightarrow> \<not> is_js_space c"
  by (auto simp: is_digit_def is_js_space_def)

lemma js_trim_id:
  assumes "s \<noteq> []" "\<not> is_js_space (hd s)" "\<not> is_js_space (last s)"
  shows "js_trim s = s"
proof -
  from assms have "dropWhile is_js_space s = s"
    by (cases s) auto
  moreover from assms have "dropWhile is_js_space (rev s) = rev s"
    by (cases "rev s") (auto simp: last_rev [symmetric] simp del: last_rev hd_rev)
  ultimately show ?thesis
    by (simp add: js_trim_def)
qed

lemma lookup_normalize_key:
  assumes "zip_pattern_test k"
  shows "lookup_normalize (JStr k) = Inr (Some k)"
proof -
  from assms have len: "length k = 5" and dig: "\<forall>c \<in> set k. is_digit c"
    by (auto simp: zip_pattern_test_def list_all_iff)
  then have "k \<noteq> []" by auto
  with dig have "is_digit (hd k)" "is_digit (last k)"
    by auto
  with \<open>k \<noteq> []\<close> have "js_trim k = k"
    by (intro js_trim_id) (auto dest: digit_not_space)
  with len have "js_slice (js_padStart (js_trim k) 5 ''0'') 0 5 = k"
    using normalized_eq [of k] by simp
  with assms show ?thesis
    by (simp add: lookup_normalize_def)
qed

lemma lookup_by_normalize:
  "lookup this z =
     (if \<not> loaded this \<or> data this = None then Inr None
      else case lookup_normalize z of
        Inl e \<Rightarrow> Inl e
      | Inr None \<Rightarrow> Inr None
      | Inr (Some normalizedZip) \<Rightarrow>
          (case the (data this) normalizedZip of
             None \<Rightarrow> Inr None
           | Some locs \<Rightarrow>
               Inr (Some
                 \<lparr>zipcode = normalizedZip,
                  locations = (case locs of Many ls \<Rightarrow> ls | Single l \<Rightarrow> [l]),
                  hasMultiple =
                    (case locs of Many ls \<Rightarrow> 1 < length ls | Single l \<Rightarrow> False)\<rparr>)))"
  by (simp add: lookup_def lookup_normalize_def Let_def split: sum.splits)

text \<open>
  C4, as the code has it.  For a key of 5 digits that is present in the table, the
  client's \<^verbatim>\<open>lookup\<close> on a loaded instance and the server's \<^verbatim>\<open>lookupZip\<close> return the
  key with the locations of its value: a single record wrapped into a one-element
  sequence, an array as it is, so an empty sequence exactly when the value is an empty
  array.  \<^verbatim>\<open>hasMultiple\<close> is true exactly when that sequence has more than one element.
\<close>

theorem lookup_returns_the_entry:
  assumes "zip_pattern_test k" and "zipData k = Some e"
  shows "\<exists>r. lookup \<lparr>data = Some zipData, loaded = True, loadPromise = p\<rparr> (JStr k) = Inr (Some r)
           \<and> lookupZip zipData (JStr k) = Inr (Found r)
           \<and> zipcode r = k
           \<and> locations r = (case e of Single l \<Rightarrow> [l] | Many ls \<Rightarrow> ls)
           \<and> (locations r = [] \<longleftrightarrow> e = Many [])
           \<and> (hasMultiple r \<longleftrightarrow> 1 < length (locations r))"
proof -
  from assms(1) have n: "lookup_normalize (JStr k) = Inr (Some k)"
    by (rule lookup_normalize_key)
  from assms(1) have "k \<noteq> []"
    by (auto simp: zip_pattern_test_def)
  with n have nz: "normalizeZip (JStr k) = Inr (Some k)"
    by (simp add: normalizeZip_lookup_normalize)
  show ?thesis
    using assms(2) n nz
    by (cases e) (simp_all add: lookup_by_normalize lookupZip_def)
qed

theorem lookup_returns_the_entry_witness:
  "zip_pattern_test ''12345''
   \<and> example_table ''12345'' = Some (Many [schenectady, rotterdam])
   \<and> lookup \<lparr>data = Some example_table, loaded = True, loadPromise = Some Fulfilled\<rparr>
        (JStr ''12345'')
       = Inr (Some \<lparr>zipcode = ''12345'', locations = [schenectady, rotterdam],
                    hasMultiple = True\<rparr>)
   \<and> lookupZip example_table (JStr ''12345'')
       = Inr (Found \<lparr>zipcode = ''12345'', locations = [schenectady, rotterdam],
                     hasMultiple = True\<rparr>)"
proof -
  have h: "zip_pattern_test ''12345''"
    "example_table ''12345'' = Some (Many [schenectady, rotterdam])"
    by (simp_all add: zip_pattern_test_def is_digit_def example_table_def)
  show ?thesis
    using h lookup_returns_the_entry
      [where k = "''12345''" and zipData = example_table and p = "Some Fulfilled", OF h]
    by auto
qed

text \<open>C4 as stated fails for a key whose value is an empty array: the lookup finds it and
  returns no location.\<close>

theorem lookup_empty_array_counterexample:
  "empty_array_table ''12345'' = Some (Many [])
   \<and> lookup \<lparr>data = Some empty_array_table, loaded = True, loadPromise = Some Fulfilled\<rparr>
        (JStr ''12345'')
       = Inr (Some \<lparr>zipcode = ''12345'', locations = [], hasMultiple = False\<rparr>)
   \<and> lookupZip empty_array_table (JStr ''12345'')
       = Inr (Found \<lparr>zipcode = ''12345'', locations = [], hasMultiple = False\<rparr>)"
proof -
  have "zip_pattern_test ''12345''"
    by (simp add: zip_pattern_test_def is_digit_def)
  then have "lookup_normalize (JStr ''12345'') = Inr (Some ''12345'')"
    by (rule lookup_normalize_key)
  then show ?thesis
    by (simp add: lookup_by_normalize lookupZip_def normalizeZip_lookup_normalize
        empty_array_table_def)
qed

text \<open>
  C9.  Before the table is loaded, \<^verbatim>\<open>lookup\<close> returns \<^verbatim>\<open>null\<close> for every input and
  does not throw: it returns ahead of every use of its argument.
\<close>

theorem lookup_before_load: "\<not> loaded this \<Longrightarrow> lookup this z = Inr None"
  by (simp add: lookup_def)

theorem lookup_before_load_witness:
  "\<not> loaded (ZipFill_new (Some example_table))
   \<and> lookup (ZipFill_new (Some example_table)) (JStr ''90210'') = Inr None
   \<and> lookup (ZipFill_new (Some example_table)) unconvertible = Inr None"
proof -
  have h: "\<not> loaded (ZipFill_new (Some example_table))"
    by (simp add: ZipFill_new_def)
  show ?thesis
    using h lookup_before_load [OF h, of "JStr ''90210''"] lookup_before_load [OF h, of unconvertible]
    by simp
qed

section \<open>Loading\<close>

text \<open>
  C2, as the code has it.  When the first \<^verbatim>\<open>load\<close> of an instance without data fails,
  its promise is rejected with the error and \<^verbatim>\<open>loaded\<close> stays false, so lookups keep
  returning \<^verbatim>\<open>null\<close>.  The rejected promise stays in \<^verbatim>\<open>loadPromise\<close>: every later
  \<^verbatim>\<open>load\<close> returns that same failed outcome, calls \<^verbatim>\<open>fetch\<close> no more and changes
  nothing.
\<close>

theorem load_failure_is_cached:
  assumes "\<not> loaded this" and "loadPromise this = None" and "data this = None"
  shows "fetch_called (load this) \<and> returned (load this) = Pending
     \<and> \<not> loaded (fetch_settles (Failure e) (after (load this)))
     \<and> loadPromise (fetch_settles (Failure e) (after (load this))) = Some (Rejected e)
     \<and> load (fetch_settles (Failure e) (after (load this)))
         = \<lparr>returned = Rejected e, fetch_called = False,
            after = fetch_settles (Failure e) (after (load this))\<rparr>
     \<and> lookup (fetch_settles (Failure e) (after (load this))) z = Inr None"
  using assms by (simp add: load_def fetch_settles_def lookup_def)

theorem load_failure_is_cached_witness:
  "\<not> loaded (ZipFill_new None) \<and> loadPromise (ZipFill_new None) = None
   \<and> data (ZipFill_new None) = None
   \<and> fetch_called (load (ZipFill_new None))
   \<and> returned (load (fetch_settles (Failure (HttpStatus 404)) (after (load (ZipFill_new None)))))
       = Rejected (HttpStatus 404)
   \<and> \<not> fetch_called
         (load (fetch_settles (Failure (HttpStatus 404)) (after (load (ZipFill_new None)))))"
proof -
  have h: "\<not> loaded (ZipFill_new None)" "loadPromise (ZipFill_new None) = None"
    "data (ZipFill_new None) = None"
    by (simp_all add: ZipFill_new_def)
  show ?thesis
    using h load_failure_is_cached [OF h, of "HttpStatus 404"] by simp
qed

text \<open>C2 as stated fails: after a failed first load, the next \<^verbatim>\<open>load\<close> calls
  \<^verbatim>\<open>fetch\<close> no more and returns the rejection it kept.\<close>

theorem load_retry_counterexample:
  "fetch_called (load (ZipFill_new None)) \<and> \<not> loaded failed_once
   \<and> \<not> fetch_called (load failed_once)
   \<and> returned (load failed_once) = Rejected FetchRejected"
  by (simp add: failed_once_def ZipFill_new_def load_def fetch_settles_def)

section \<open>Batch lookup\<close>

lemma collect_map_Inr:
  "\<forall>z \<in> set zs. f z = Inr (g z) \<Longrightarrow> collect (map f zs) = Inr (map g zs)"
  by (induction zs) simp_all

lemma lookupZip_throws_iff:
  "(\<exists>e. lookupZip zipData z = Inl e) \<longleftrightarrow> (\<exists>e. js_String z = Inl e)"
proof (cases "js_String z")
  case (Inl e)
  then have "js_truthy z"
    by (cases z rule: js_truthy.cases) (auto split: if_splits)
  with Inl show ?thesis
    by (simp add: lookupZip_def normalizeZip_def)
next
  case (Inr str)
  then show ?thesis
    by (auto simp: lookupZip_def normalizeZip_def Let_def split: option.splits)
qed

text \<open>
  Where \<^verbatim>\<open>String()\<close> converts every element, \<^verbatim>\<open>POST /api/batch\<close> does what C5 says: 400
  when \<^verbatim>\<open>zips\<close> is missing or is not an array, 400 when it has more than 100 elements,
  and otherwise 200 with one result for each input, in the order of the inputs.
\<close>

lemma batch_of_convertible_elements:
  "(\<not> Array_isArray zips
      \<longrightarrow> post_api_batch zipData zips = Status400 ''Missing or invalid zips array'')
   \<and> (100 < length zs
      \<longrightarrow> post_api_batch zipData (JArr zs) = Status400 ''Maximum 100 zips per request'')
   \<and> (length zs \<le> 100 \<and> (\<forall>z \<in> set zs. \<exists>str. js_String z = Inr str)
      \<longrightarrow> (\<exists>results. post_api_batch zipData (JArr zs) = Status200 results
            \<and> length results = length zs
            \<and> (\<forall>i < length zs. lookupZip zipData (zs ! i) = Inr (results ! i))))"
proof -
  have "\<exists>results. post_api_batch zipData (JArr zs) = Status200 results
            \<and> length results = length zs
            \<and> (\<forall>i < length zs. lookupZip zipData (zs ! i) = Inr (results ! i))"
    if len: "length zs \<le> 100" and conv: "\<forall>z \<in> set zs. \<exists>str. js_String z = Inr str"
  proof -
    have "\<forall>z \<in> set zs. \<exists>r. lookupZip zipData z = Inr r"
    proof
      fix z assume "z \<in> set zs"
      with conv have "\<not> (\<exists>e. js_String z = Inl e)"
        by auto
      then have "\<not> (\<exists>e. lookupZip zipData z = Inl e)"
        by (simp add: lookupZip_throws_iff)
      then show "\<exists>r. lookupZip zipData z = Inr r"
        by (cases "lookupZip zipData z") auto
    qed
    then have "\<forall>z \<in> set zs. lookupZip zipData z = Inr (projr (lookupZip zipData z))"
      by auto
    then have "collect (map (lookupZip zipData) zs)
        = Inr (map (\<lambda>z. projr (lookupZip zipData z)) zs)"
      by (rule collect_map_Inr)
    with len \<open>\<forall>z \<in> set zs. lookupZip zipData z = Inr (projr (lookupZip zipData z))\<close>
    show ?thesis
      by (simp add: post_api_batch_def)
  qed
  then show ?thesis
    by (simp add: post_api_batch_def)
qed

text \<open>
  C5 fails on the code.  The body \<^verbatim>\<open>{"zips": ["90210", {"toString": "x"}]}\<close> holds an
  array of two elements.  \<^verbatim>\<open>String()\<close> throws on the second one inside
  \<^verbatim>\<open>normalizeZip\<close>, nothing catches it, and the answer is status 500 with no results,
  where C5 has two results, the second a descriptor \<^verbatim>\<open>{error, zip}\<close>.
\<close>

theorem batch_throws_on_unconvertible_element:
  "js_String unconvertible = Inl TypeError
   \<and> lookupZip example_table unconvertible = Inl TypeError
   \<and> post_api_batch example_table (JArr [JStr ''90210'', unconvertible]) = Status500 TypeError"
proof -
  have u: "js_String unconvertible = Inl TypeError"
    by (simp add: unconvertible_def)
  then have l: "lookupZip example_table unconvertible = Inl TypeError"
    by (simp add: lookupZip_def normalizeZip_def unconvertible_def)
  have "zip_pattern_test ''90210''"
    by (simp add: zip_pattern_test_def is_digit_def)
  then have "lookup_normalize (JStr ''90210'') = Inr (Some ''90210'')"
    by (rule lookup_normalize_key)
  then have "\<exists>r. lookupZip example_table (JStr ''90210'') = Inr r"
    by (simp add: lookupZip_def normalizeZip_lookup_normalize example_table_def)
  with u l show ?thesis
    by (auto simp: post_api_batch_def)
qed

theorem batch_throws_on_unconvertible_element_witness:
  "post_api_batch example_table (JArr [JStr ''90210'', unconvertible]) = Status500 TypeError"
  using batch_throws_on_unconvertible_element by simp

section \<open>Properties of objects\<close>

lemma keys_update_in_place:
  "map (fst \<circ> (\<lambda>(k', v'). if k' = k then (k', v) else (k', v'))) obj = map fst obj"
  by (induction obj) auto

lemma map_of_update_other:
  "k' \<noteq> k \<Longrightarrow>
   map_of (map (\<lambda>(k', v'). if k' = k then (k', v) else (k', v')) obj) k' = map_of obj k'"
  by (induction obj) (auto split: prod.splits)

lemma map_of_update_same:
  "k \<in> fst ` set obj \<Longrightarrow>
   map_of (map (\<lambda>(k', v'). if k' = k then (k', v) else (k', v')) obj) k = Some v"
  by (induction obj) (auto split: prod.splits)

lemma set_place_index: "set (place_index k v obj) = insert (k, v) (set obj)"
  by (induction k v obj rule: place_index.induct) auto

lemma length_place_index: "length (place_index k v obj) = Suc (length obj)"
  by (induction k v obj rule: place_index.induct) auto

lemma set_obj_set_new:
  "k \<notin> set (Object_keys obj) \<Longrightarrow> set (obj_set obj k v) = insert (k, v) (set obj)"
  by (simp add: obj_set_def set_place_index)

lemma keys_obj_set: "set (Object_keys (obj_set obj k v)) = insert k (set (Object_keys obj))"
proof (cases "k \<in> set (Object_keys obj)")
  case True
  then show ?thesis
    by (auto simp: obj_set_def Object_keys_def keys_update_in_place)
next
  case False
  then have "set (obj_set obj k v) = insert (k, v) (set obj)"
    by (rule set_obj_set_new)
  then have "fst ` set (obj_set obj k v) = insert k (fst ` set obj)"
    by simp
  then show ?thesis
    by (simp add: Object_keys_def)
qed

lemma length_obj_set:
  "length (obj_set obj k v) = (if k \<in> set (Object_keys obj) then length obj else Suc (length obj))"
  by (simp add: obj_set_def length_place_index)

lemma distinct_place_index:
  "k \<notin> fst ` set obj \<Longrightarrow> distinct (map fst obj) \<Longrightarrow> distinct (map fst (place_index k v obj))"
  by (induction k v obj rule: place_index.induct) (auto simp: set_place_index)

lemma distinct_obj_set:
  assumes "distinct (Object_keys obj)"
  shows "distinct (Object_keys (obj_set obj k v))"
proof (cases "k \<in> set (Object_keys obj)")
  case True
  with assms show ?thesis
    by (simp add: obj_set_def Object_keys_def keys_update_in_place)
next
  case False
  with assms show ?thesis
    by (auto simp: obj_set_def Object_keys_def distinct_place_index)
qed

lemma map_of_place_index:
  "k \<notin> fst ` set obj \<Longrightarrow> map_of (place_index k v obj) = (map_of obj)(k \<mapsto> v)"
  by (induction k v obj rule: place_index.induct) (auto simp: fun_upd_twist)

lemma obj_get_obj_set:
  "obj_get (obj_set obj k v) k' = (if k' = k then Some v else obj_get obj k')"
proof (cases "k \<in> set (Object_keys obj)")
  case True
  then show ?thesis
    by (simp add: obj_set_def obj_get_def Object_keys_def map_of_update_other
        map_of_update_same)
next
  case False
  then have "map_of obj k = None"
    by (simp add: Object_keys_def map_of_eq_None_iff)
  with False show ?thesis
    by (auto simp: obj_set_def obj_get_def Object_keys_def map_of_place_index map_add_def
        split: option.splits)
qed

lemma obj_get_None_iff: "obj_get obj k = None \<longleftrightarrow> k \<notin> set (Object_keys obj)"
  by (simp add: obj_get_def Object_keys_def map_of_eq_None_iff)

lemma keys_obj_delete: "set (Object_keys (obj_delete obj k)) = set (Object_keys obj) - {k}"
  by (auto simp: obj_delete_def Object_keys_def)

lemma distinct_obj_delete:
  "distinct (Object_keys obj) \<Longrightarrow> distinct (Object_keys (obj_delete obj k))"
  by (simp add: obj_delete_def Object_keys_def distinct_map_filter)

lemma obj_get_obj_delete:
  "obj_get (obj_delete obj k) k' = (if k' = k then None else obj_get obj k')"
  by (induction obj) (auto simp: obj_get_def obj_delete_def)

lemma length_keys_card:
  "distinct (Object_keys obj) \<Longrightarrow> length (Object_keys obj) = card (set (Object_keys obj))"
  by (simp add: distinct_card)

section \<open>Lookup counters\<close>

lemma error_message_nonempty: "error_message f \<noteq> []"
  by (cases f) (simp_all add: error_message_def)

lemma result_found_iff: "result_found result \<longleftrightarrow> (\<exists>r. result = Some (Found r))"
proof (cases result)
  case None
  then show ?thesis by (simp add: result_found_def)
next
  case (Some x)
  then show ?thesis
    by (cases x) (simp_all add: result_found_def error_message_nonempty)
qed

lemma recordLookup_counters:
  "lookups_total (recordLookup z result m) = lookups_total m + 1"
  "lookups_found (recordLookup z result m) = lookups_found m + (if result_found result then 1 else 0)"
  "lookups_notFound (recordLookup z result m)
     = lookups_notFound m + (if result_found result then 0 else 1)"
  by (simp_all add: recordLookup_def Let_def split: option.splits list.splits)

lemma recordLookups_snoc:
  "recordLookups (calls @ [(z, result)]) m = recordLookup z result (recordLookups calls m)"
  by (simp add: recordLookups_def)

text \<open>
  C10.  Every \<^verbatim>\<open>recordLookup\<close> adds one to the total and one to exactly one of the two
  other counters: to \<^verbatim>\<open>found\<close> when the result is present and has no \<^verbatim>\<open>error\<close>
  field, to \<^verbatim>\<open>notFound\<close> otherwise.  So after every sequence of calls on a fresh
  instance the total is the number of calls and equals found plus notFound.
\<close>

theorem lookup_counters_add_up:
  "lookups_total (recordLookup z result m) = lookups_total m + 1
   \<and> ((\<exists>r. result = Some (Found r)) \<longrightarrow>
        lookups_found (recordLookup z result m) = lookups_found m + 1
        \<and> lookups_notFound (recordLookup z result m) = lookups_notFound m)
   \<and> (\<not> (\<exists>r. result = Some (Found r)) \<longrightarrow>
        lookups_found (recordLookup z result m) = lookups_found m
        \<and> lookups_notFound (recordLookup z result m) = lookups_notFound m + 1)
   \<and> lookups_total (recordLookups calls Metrics_new)
       = lookups_found (recordLookups calls Metrics_new)
         + lookups_notFound (recordLookups calls Metrics_new)
   \<and> lookups_total (recordLookups calls Metrics_new) = length calls"
proof -
  have sum: "lookups_total (recordLookups calls Metrics_new)
       = lookups_found (recordLookups calls Metrics_new)
         + lookups_notFound (recordLookups calls Metrics_new)
       \<and> lookups_total (recordLookups calls Metrics_new) = length calls"
  proof (induction calls rule: rev_induct)
    case Nil
    show ?case by (simp add: recordLookups_def Metrics_new_def)
  next
    case (snoc c calls)
    obtain z' result' where c: "c = (z', result')"
      by (cases c)
    from snoc show ?case
      unfolding c recordLookups_snoc by (simp add: recordLookup_counters)
  qed
  show ?thesis
    using sum by (simp add: recordLookup_counters result_found_iff [symmetric])
qed


theorem lookup_counters_add_up_witness:
  "(\<exists>r. Some (Found \<lparr>zipcode = ''90210'', locations = [beverly_hills], hasMultiple = False\<rparr>)
          = Some (Found r))
   \<and> lookups_found
        (recordLookup ''90210''
          (Some (Found \<lparr>zipcode = ''90210'', locations = [beverly_hills], hasMultiple = False\<rparr>))
          Metrics_new) = 1
   \<and> \<not> (\<exists>r. Some (ErrorDescriptor Zip_code_not_found (JStr ''00000'')) = Some (Found r))
   \<and> lookups_notFound
        (recordLookup ''00000'' (Some (ErrorDescriptor Zip_code_not_found (JStr ''00000'')))
          Metrics_new) = 1"
  using
    lookup_counters_add_up
      [of "''90210''"
          "Some (Found \<lparr>zipcode = ''90210'', locations = [beverly_hills], hasMultiple = False\<rparr>)"
          Metrics_new "[]"]
    lookup_counters_add_up
      [of "''00000''" "Some (ErrorDescriptor Zip_code_not_found (JStr ''00000''))"
          Metrics_new "[]"]
  by (simp add: Metrics_new_def)

section \<open>Pruning the popularity counters\<close>

lemma keys_bump: "set (Object_keys (bump obj k)) = insert k (set (Object_keys obj))"
  by (simp add: bump_def keys_obj_set)

lemma distinct_bump: "distinct (Object_keys obj) \<Longrightarrow> distinct (Object_keys (bump obj k))"
  by (simp add: bump_def distinct_obj_set)

lemma length_bump:
  "length (bump obj k) = (if k \<in> set (Object_keys obj) then length obj else Suc (length obj))"
  by (simp add: bump_def length_obj_set)

lemma fromEntries_fold:
  assumes "distinct (map fst acc)" and "distinct (map fst es)"
    and "fst ` set acc \<inter> fst ` set es = {}"
  shows "set (foldl (\<lambda>obj (k, v). obj_set obj k v) acc es) = set acc \<union> set es
     \<and> distinct (map fst (foldl (\<lambda>obj (k, v). obj_set obj k v) acc es))"
  using assms
proof (induction es arbitrary: acc)
  case Nil
  then show ?case by simp
next
  case (Cons e es)
  obtain k v where e: "e = (k, v)"
    by (cases e)
  from Cons.prems e have new: "k \<notin> set (Object_keys acc)"
    by (auto simp: Object_keys_def)
  then have s: "set (obj_set acc k v) = insert (k, v) (set acc)"
    by (rule set_obj_set_new)
  from Cons.prems(1) have d: "distinct (map fst (obj_set acc k v))"
    using distinct_obj_set [of acc k v] by (simp add: Object_keys_def)
  from Cons.prems e s have "fst ` set (obj_set acc k v) \<inter> fst ` set es = {}"
    by auto
  with d Cons.prems(2) e
  have "set (foldl (\<lambda>obj (k, v). obj_set obj k v) (obj_set acc k v) es)
          = set (obj_set acc k v) \<union> set es
        \<and> distinct (map fst (foldl (\<lambda>obj (k, v). obj_set obj k v) (obj_set acc k v) es))"
    by (intro Cons.IH) auto
  with s e show ?case
    by simp
qed

lemma fromEntries_distinct:
  assumes "distinct (map fst es)"
  shows "set (Object_fromEntries es) = set es" and "distinct (Object_keys (Object_fromEntries es))"
    and "length (Object_fromEntries es) = length es"
proof -
  from assms have *: "set (Object_fromEntries es) = set [] \<union> set es
      \<and> distinct (map fst (Object_fromEntries es))"
    unfolding Object_fromEntries_def by (intro fromEntries_fold) auto
  then show "set (Object_fromEntries es) = set es"
    and d: "distinct (Object_keys (Object_fromEntries es))"
    by (simp_all add: Object_keys_def)
  from * have "set (map fst (Object_fromEntries es)) = set (map fst es)"
    by simp
  moreover from d have "length (map fst (Object_fromEntries es))
      = card (set (map fst (Object_fromEntries es)))"
    unfolding Object_keys_def by (rule distinct_card [symmetric])
  moreover from assms have "length (map fst es) = card (set (map fst es))"
    by (rule distinct_card [symmetric])
  ultimately have "length (map fst (Object_fromEntries es)) = length (map fst es)"
    by simp
  then show "length (Object_fromEntries es) = length es"
    by simp
qed

lemma distinct_keys_sort_key:
  "distinct (map fst xs) \<Longrightarrow> distinct (map fst (sort_key f xs))"
  by (simp add: distinct_map)

lemma distinct_keys_take: "distinct (map fst xs) \<Longrightarrow> distinct (map fst (take n xs))"
  by (simp add: take_map [symmetric])

lemma pruneTopZips_top:
  assumes "distinct (Object_keys topZips)"
  shows "set (pruneTopZips topZips) = set (take 500 (sort_key (\<lambda>(k, c). - int c) topZips))"
    and "distinct (Object_keys (pruneTopZips topZips))"
    and "length (pruneTopZips topZips) = min 500 (length topZips)"
    and "set (pruneTopZips topZips) \<subseteq> set topZips"
    and "\<forall>(k, c) \<in> set (pruneTopZips topZips).
           \<forall>(k', c') \<in> set topZips - set (pruneTopZips topZips). c' \<le> c"
proof -
  let ?sorted = "sort_key (\<lambda>(k, c). - int c) topZips"
  from assms have d: "distinct (map fst (take 500 ?sorted))"
    by (simp add: Object_keys_def distinct_keys_sort_key distinct_keys_take)
  then show kept: "set (pruneTopZips topZips) = set (take 500 ?sorted)"
    and "distinct (Object_keys (pruneTopZips topZips))"
    and "length (pruneTopZips topZips) = min 500 (length topZips)"
    unfolding pruneTopZips_def by (simp_all add: fromEntries_distinct min.commute)
  have "set (take 500 ?sorted) \<subseteq> set ?sorted"
    by (rule set_take_subset)
  with kept show "set (pruneTopZips topZips) \<subseteq> set topZips"
    by simp
  have "sorted (map (\<lambda>(k, c). - int c) (take 500 ?sorted @ drop 500 ?sorted))"
    by simp
  then have le: "\<forall>x \<in> set (take 500 ?sorted). \<forall>y \<in> set (drop 500 ?sorted).
      (\<lambda>(k, c). - int c) x \<le> (\<lambda>(k, c). - int c) y"
    unfolding map_append sorted_append by auto
  have "set topZips = set (take 500 ?sorted) \<union> set (drop 500 ?sorted)"
    using set_append [of "take 500 ?sorted" "drop 500 ?sorted"] by simp
  then have "set topZips - set (pruneTopZips topZips) \<subseteq> set (drop 500 ?sorted)"
    using kept by auto
  with le kept show "\<forall>(k, c) \<in> set (pruneTopZips topZips).
           \<forall>(k', c') \<in> set topZips - set (pruneTopZips topZips). c' \<le> c"
    by fastforce
qed

lemma recordLookup_topZips:
  "lookups_topZips (recordLookup z result m) =
     (if result_found result
      then if 1000 < length (Object_keys (bump (lookups_topZips m) z))
           then pruneTopZips (bump (lookups_topZips m) z)
           else bump (lookups_topZips m) z
      else lookups_topZips m)"
  by (simp add: recordLookup_def Let_def split: option.splits list.splits)

lemma topZips_invariant:
  "distinct (Object_keys (lookups_topZips (recordLookups calls Metrics_new)))
   \<and> length (Object_keys (lookups_topZips (recordLookups calls Metrics_new))) \<le> 1000"
proof (induction calls rule: rev_induct)
  case Nil
  show ?case by (simp add: recordLookups_def Metrics_new_def Object_keys_def)
next
  case (snoc c calls)
  obtain z result where c: "c = (z, result)"
    by (cases c)
  let ?t = "lookups_topZips (recordLookups calls Metrics_new)"
  from snoc have d: "distinct (Object_keys (bump ?t z))"
    by (simp add: distinct_bump)
  from d have "distinct (Object_keys (pruneTopZips (bump ?t z)))"
    and "length (pruneTopZips (bump ?t z)) \<le> 1000"
    by (simp_all add: pruneTopZips_top)
  with snoc d show ?case
    unfolding c recordLookups_snoc recordLookup_topZips by (simp add: Object_keys_def)
qed

text \<open>
  C8.  After every sequence of \<^verbatim>\<open>recordLookup\<close> calls on a fresh instance the
  popularity mapping holds at most 1000 codes.  Whenever the increment of a call leaves
  more than 1000 codes, the mapping becomes 500 of the incremented entries, none with
  a smaller count than an entry that was dropped; when it leaves at most 1000, the mapping
  is the incremented one.
\<close>

theorem topZips_bounded_and_pruned:
  "length (Object_keys (lookups_topZips (recordLookups calls Metrics_new))) \<le> 1000
   \<and> (distinct (Object_keys (lookups_topZips m)) \<and> result_found result
        \<and> 1000 < length (Object_keys (bump (lookups_topZips m) z))
      \<longrightarrow> length (Object_keys (lookups_topZips (recordLookup z result m))) = 500
          \<and> distinct (Object_keys (lookups_topZips (recordLookup z result m)))
          \<and> set (lookups_topZips (recordLookup z result m)) \<subseteq> set (bump (lookups_topZips m) z)
          \<and> (\<forall>(k, c) \<in> set (lookups_topZips (recordLookup z result m)).
               \<forall>(k', c') \<in> set (bump (lookups_topZips m) z)
                              - set (lookups_topZips (recordLookup z result m)). c' \<le> c))
   \<and> (result_found result \<and> length (Object_keys (bump (lookups_topZips m) z)) \<le> 1000
      \<longrightarrow> lookups_topZips (recordLookup z result m) = bump (lookups_topZips m) z)"
proof -
  have pruned: "length (Object_keys (lookups_topZips (recordLookup z result m))) = 500
          \<and> distinct (Object_keys (lookups_topZips (recordLookup z result m)))
          \<and> set (lookups_topZips (recordLookup z result m)) \<subseteq> set (bump (lookups_topZips m) z)
          \<and> (\<forall>(k, c) \<in> set (lookups_topZips (recordLookup z result m)).
               \<forall>(k', c') \<in> set (bump (lookups_topZips m) z)
                              - set (lookups_topZips (recordLookup z result m)). c' \<le> c)"
    if "distinct (Object_keys (lookups_topZips m))" and "result_found result"
      and "1000 < length (Object_keys (bump (lookups_topZips m) z))"
  proof -
    from that(1) have d: "distinct (Object_keys (bump (lookups_topZips m) z))"
      by (rule distinct_bump)
    from that(2,3) have eq: "lookups_topZips (recordLookup z result m)
        = pruneTopZips (bump (lookups_topZips m) z)"
      by (simp add: recordLookup_topZips)
    from that(3) have "length (pruneTopZips (bump (lookups_topZips m) z)) = 500"
      using pruneTopZips_top(3) [OF d] by (simp add: Object_keys_def)
    then show ?thesis
      unfolding eq using pruneTopZips_top(2,4,5) [OF d] by (simp add: Object_keys_def)
  qed
  show ?thesis
    using topZips_invariant [of calls] pruned by (simp add: recordLookup_topZips)
qed

lemma index_value_snoc: "index_value (k @ [c]) = 10 * index_value k + (of_char c - 48)"
  by (simp add: index_value_def)

lemma of_char_digit_char:
  assumes "d < 10"
  shows "(of_char (digit_char d) :: int) = 48 + int d"
proof -
  have "(of_char (digit_char d) :: int) = int (of_char (digit_char d))"
    by (simp add: of_nat_of_char)
  also have "\<dots> = int ((48 + d) mod 256)"
    by (simp add: digit_char_def)
  also from assms have "\<dots> = 48 + int d"
    by simp
  finally show ?thesis .
qed

lemma index_value_string_of_nat: "index_value (string_of_nat n) = int n"
proof (induction n rule: string_of_nat.induct)
  case (1 n)
  show ?case
  proof (cases "n < 10")
    case True
    then show ?thesis
      using index_value_snoc [of "[]" "digit_char n"]
      by (subst string_of_nat.simps) (simp add: of_char_digit_char index_value_def)
  next
    case False
    with 1 have "index_value (string_of_nat (n div 10)) = int (n div 10)"
      by simp
    with False show ?thesis
      by (subst string_of_nat.simps) (simp add: index_value_snoc of_char_digit_char zdiv_int zmod_int)
  qed
qed

lemma inj_string_of_nat: "inj string_of_nat"
proof (rule injI)
  fix m n
  assume "string_of_nat m = string_of_nat n"
  then have "index_value (string_of_nat m) = index_value (string_of_nat n)"
    by simp
  then show "m = n"
    by (simp add: index_value_string_of_nat)
qed

lemma thousand_zips_keys:
  "Object_keys thousand_zips = map string_of_nat [10000..<11000]"
  by (simp add: thousand_zips_def Object_keys_def comp_def del: upt_rec_numeral)

lemma distinct_thousand_zips: "distinct (Object_keys thousand_zips)"
  unfolding thousand_zips_keys
  by (simp add: distinct_map inj_on_subset [OF inj_string_of_nat] del: upt_rec_numeral)

lemma beverly_hills_not_counted: "''90210'' \<notin> set (Object_keys thousand_zips)"
proof
  assume "''90210'' \<in> set (Object_keys thousand_zips)"
  then obtain i where i: "i \<in> {10000..<11000}" "''90210'' = string_of_nat i"
    unfolding thousand_zips_keys by (auto simp del: upt_rec_numeral)
  have "index_value ''90210'' = 90210"
    by (simp add: index_value_def)
  with i(2) have "int i = 90210"
    by (simp add: index_value_string_of_nat)
  with i(1) show False
    by simp
qed

theorem topZips_bounded_and_pruned_witness:
  "distinct (Object_keys (lookups_topZips busy_metrics))
   \<and> result_found
        (Some (Found \<lparr>zipcode = ''90210'', locations = [beverly_hills], hasMultiple = False\<rparr>))
   \<and> 1000 < length (Object_keys (bump (lookups_topZips busy_metrics) ''90210''))
   \<and> length (Object_keys (lookups_topZips
        (recordLookup ''90210''
          (Some (Found \<lparr>zipcode = ''90210'', locations = [beverly_hills], hasMultiple = False\<rparr>))
          busy_metrics))) = 500"
proof -
  have t: "lookups_topZips busy_metrics = thousand_zips"
    by (simp add: busy_metrics_def)
  have h1: "distinct (Object_keys (lookups_topZips busy_metrics))"
    unfolding t by (rule distinct_thousand_zips)
  have h2: "result_found
        (Some (Found \<lparr>zipcode = ''90210'', locations = [beverly_hills], hasMultiple = False\<rparr>))"
    by (simp add: result_found_iff)
  have "length thousand_zips = 1000"
    by (simp add: thousand_zips_def del: upt_rec_numeral)
  then have h3: "1000 < length (Object_keys (bump (lookups_topZips busy_metrics) ''90210''))"
    unfolding t using beverly_hills_not_counted by (simp add: Object_keys_def length_bump)
  show ?thesis
    using h1 h2 h3
      topZips_bounded_and_pruned
        [where m = busy_metrics and z = "''90210''" and calls = "[]" and result =
          "Some (Found \<lparr>zipcode = ''90210'', locations = [beverly_hills], hasMultiple = False\<rparr>)"]
    by simp
qed

section \<open>Hourly buckets\<close>

lemma hd_sort_Min:
  assumes "xs \<noteq> []"
  shows "hd (sort xs) = Min (set xs)"
proof -
  from assms have "sort xs \<noteq> []"
    by (metis length_0_conv length_sort)
  then obtain y ys where s: "sort xs = y # ys"
    by (cases "sort xs") auto
  have "sorted (sort xs)"
    by simp
  with s have "\<forall>z \<in> set ys. y \<le> z"
    by simp
  moreover from s have "set xs = insert y (set ys)"
    by (metis list.simps(15) set_sort)
  ultimately have "Min (set xs) = y"
    by (intro Min_eqI) auto
  with s show ?thesis
    by simp
qed

lemma clean_loop_short: "length keys \<le> 168 \<Longrightarrow> clean_loop keys obj = obj"
  by (subst clean_loop.simps) simp

lemma clean_loop_one:
  "length keys = 169 \<Longrightarrow> clean_loop keys obj = obj_delete obj (hd keys)"
  by (subst clean_loop.simps) (simp add: clean_loop_short)

lemma cleanOldHours_short: "length obj \<le> 168 \<Longrightarrow> cleanOldHours obj = obj"
  by (simp add: cleanOldHours_def clean_loop_short Object_keys_def)

lemma cleanOldHours_one:
  assumes "length obj = 169"
  shows "cleanOldHours obj = obj_delete obj (Min (set (Object_keys obj)))"
proof -
  from assms have "Object_keys obj \<noteq> []"
    by (auto simp: Object_keys_def)
  then have "hd (sort (Object_keys obj)) = Min (set (Object_keys obj))"
    by (rule hd_sort_Min)
  with assms show ?thesis
    by (simp add: cleanOldHours_def clean_loop_one Object_keys_def)
qed

lemma hourly_tracking_existing:
  assumes "obj_get obj h = Some (Finite n)" and "n \<noteq> 0"
  shows "hourly_tracking h obj = obj_set obj h (Finite (n + 1))"
  using assms by (simp add: hourly_tracking_def)

lemma hourly_tracking_new_small:
  assumes "h \<notin> set (Object_keys obj)" and "length obj < 168"
  shows "hourly_tracking h obj = obj_set (obj_set obj h (Finite 0)) h (Finite 1)"
proof -
  from assms(1) have "obj_get obj h = None"
    by (simp add: obj_get_None_iff)
  moreover from assms have "cleanOldHours (obj_set obj h (Finite 0)) = obj_set obj h (Finite 0)"
    by (intro cleanOldHours_short) (simp add: length_obj_set)
  ultimately show ?thesis
    by (simp add: hourly_tracking_def obj_get_obj_set)
qed

lemma hourly_tracking_new_full:
  assumes "h \<notin> set (Object_keys obj)" and "length obj = 168"
    and "Min (set (Object_keys obj)) < h"
  shows "hourly_tracking h obj =
     obj_set (obj_delete (obj_set obj h (Finite 0)) (Min (set (Object_keys obj)))) h (Finite 1)"
proof -
  let ?K = "set (Object_keys obj)"
  from assms(2) have ne: "?K \<noteq> {}"
    by (auto simp: Object_keys_def)
  from assms(1) have none: "obj_get obj h = None"
    by (simp add: obj_get_None_iff)
  from assms(1,2) have "length (obj_set obj h (Finite 0)) = 169"
    by (simp add: length_obj_set)
  then have "cleanOldHours (obj_set obj h (Finite 0))
      = obj_delete (obj_set obj h (Finite 0)) (Min (insert h ?K))"
    by (simp add: cleanOldHours_one keys_obj_set)
  moreover from ne have "Min (insert h ?K) = min h (Min ?K)"
    by (intro Min_insert) auto
  moreover from assms(3) have "min h (Min ?K) = Min ?K"
    by (intro min.absorb2 less_imp_le)
  ultimately have c: "cleanOldHours (obj_set obj h (Finite 0))
      = obj_delete (obj_set obj h (Finite 0)) (Min ?K)"
    by simp
  from assms(3) have "h \<noteq> Min ?K"
    by auto
  then have "obj_get (obj_delete (obj_set obj h (Finite 0)) (Min ?K)) h = Some (Finite 0)"
    by (simp add: obj_get_obj_delete obj_get_obj_set)
  with none c show ?thesis
    by (simp add: hourly_tracking_def)
qed

lemma recordRequest_hourly:
  "hourlyRequests (recordRequest req res ms hour m) = hourly_tracking hour (hourlyRequests m)"
  by (simp add: recordRequest_def Let_def)

lemma hour_of_call: "hour_of (req, res, ms, hour) = hour"
  by (simp add: hour_of_def)

lemma recordRequests_snoc:
  "recordRequests (calls @ [(req, res, ms, hour)]) m
     = recordRequest req res ms hour (recordRequests calls m)"
  by (simp add: recordRequests_def)

lemma buckets_ok_step:
  assumes ok: "buckets_ok seen obj" and later: "\<forall>k \<in> seen. k \<le> h"
  shows "buckets_ok (insert h seen) (hourly_tracking h obj)"
proof (cases "h \<in> set (Object_keys obj)")
  case True
  then obtain v where "obj_get obj h = Some v"
    using obj_get_None_iff [of obj h] by auto
  with ok obtain n where n: "obj_get obj h = Some (Finite n)" "0 < n"
    unfolding buckets_ok_def by blast
  then have "hourly_tracking h obj = obj_set obj h (Finite (n + 1))"
    by (intro hourly_tracking_existing) auto
  with ok True n show ?thesis
    by (auto simp: buckets_ok_def distinct_obj_set keys_obj_set length_obj_set obj_get_obj_set)
next
  case False
  from ok have d: "distinct (Object_keys obj)" and len: "length obj \<le> 168"
    and sub: "set (Object_keys obj) \<subseteq> seen"
    and vals: "\<forall>k v. obj_get obj k = Some v \<longrightarrow> (\<exists>n. v = Finite n \<and> 0 < n)"
    by (auto simp: buckets_ok_def)
  show ?thesis
  proof (cases "length obj < 168")
    case True
    with False have "hourly_tracking h obj = obj_set (obj_set obj h (Finite 0)) h (Finite 1)"
      by (rule hourly_tracking_new_small)
    with d len sub vals False True show ?thesis
      by (auto simp: buckets_ok_def distinct_obj_set keys_obj_set length_obj_set obj_get_obj_set)
  next
    case full: False
    with len have l: "length obj = 168"
      by simp
    let ?K = "set (Object_keys obj)"
    from l have ne: "?K \<noteq> {}"
      by (auto simp: Object_keys_def)
    then have "Min ?K \<in> ?K"
      by (intro Min_in) auto
    with sub later False have m: "Min ?K < h"
      by (metis order_le_less subsetD)
    let ?r = "obj_set (obj_delete (obj_set obj h (Finite 0)) (Min ?K)) h (Finite 1)"
    from False l m have eq: "hourly_tracking h obj = ?r"
      by (rule hourly_tracking_new_full)
    from d have dr: "distinct (Object_keys ?r)"
      by (simp add: distinct_obj_set distinct_obj_delete)
    have kr: "set (Object_keys ?r) = insert h (?K - {Min ?K})"
      by (auto simp: keys_obj_set keys_obj_delete)
    from d have "card ?K = length (Object_keys obj)"
      by (rule distinct_card)
    with l have "card ?K = 168"
      by (simp add: Object_keys_def)
    with \<open>Min ?K \<in> ?K\<close> False have "card (insert h (?K - {Min ?K})) = 168"
      by simp
    with dr kr have "length ?r = 168"
      using distinct_card [of "Object_keys ?r"] by (simp add: Object_keys_def)
    moreover from sub kr have "set (Object_keys ?r) \<subseteq> insert h seen"
      by auto
    moreover from vals
    have "\<forall>k v. obj_get ?r k = Some v \<longrightarrow> (\<exists>n. v = Finite n \<and> 0 < n)"
      by (auto simp: obj_get_obj_set obj_get_obj_delete)
    ultimately show ?thesis
      unfolding eq using dr by (simp add: buckets_ok_def)
  qed
qed

lemma buckets_ok_requests:
  assumes "sorted (map hour_of calls)"
  shows "buckets_ok (set (map hour_of calls)) (hourlyRequests (recordRequests calls Metrics_new))"
  using assms
proof (induction calls rule: rev_induct)
  case Nil
  show ?case
    by (simp add: buckets_ok_def recordRequests_def Metrics_new_def Object_keys_def obj_get_def)
next
  case (snoc c calls)
  obtain req res ms hour where c: "c = (req, res, ms, hour)"
    by (cases c)
  from snoc.prems have s: "sorted (map hour_of calls)"
    and later: "\<forall>k \<in> set (map hour_of calls). k \<le> hour"
    by (auto simp: sorted_append c hour_of_call)
  from snoc.IH [OF s] later
  have "buckets_ok (insert hour (set (map hour_of calls)))
      (hourly_tracking hour (hourlyRequests (recordRequests calls Metrics_new)))"
    by (rule buckets_ok_step)
  then show ?case
    unfolding c recordRequests_snoc recordRequest_hourly by (simp add: hour_of_call)
qed

text \<open>
  While the clock does not run backwards the buckets are as C7 has them.  On a fresh
  instance, after every sequence of \<^verbatim>\<open>recordRequest\<close> calls whose hours do not decrease,
  the mapping holds at most 168 entries.  When a call records the first request of an
  hour while 168 distinct hour keys exist, the smallest of them being earlier than that
  hour, exactly that smallest key is evicted.
\<close>

lemma hourly_buckets_forward_clock:
  "(sorted (map hour_of calls)
      \<longrightarrow> length (Object_keys (hourlyRequests (recordRequests calls Metrics_new))) \<le> 168)
   \<and> (distinct (Object_keys (hourlyRequests m))
        \<and> length (Object_keys (hourlyRequests m)) = 168
        \<and> hour \<notin> set (Object_keys (hourlyRequests m))
        \<and> Min (set (Object_keys (hourlyRequests m))) < hour
      \<longrightarrow> set (Object_keys (hourlyRequests (recordRequest req res ms hour m)))
            = insert hour (set (Object_keys (hourlyRequests m))
                             - {Min (set (Object_keys (hourlyRequests m)))})
          \<and> length (Object_keys (hourlyRequests (recordRequest req res ms hour m))) = 168
          \<and> obj_get (hourlyRequests (recordRequest req res ms hour m)) hour = Some (Finite 1)
          \<and> (\<forall>k. k \<noteq> hour \<and> k \<noteq> Min (set (Object_keys (hourlyRequests m)))
                \<longrightarrow> obj_get (hourlyRequests (recordRequest req res ms hour m)) k
                      = obj_get (hourlyRequests m) k))"
proof -
  have capped: "length (Object_keys (hourlyRequests (recordRequests calls Metrics_new))) \<le> 168"
    if "sorted (map hour_of calls)"
    using buckets_ok_requests [OF that] by (simp add: buckets_ok_def Object_keys_def)
  have evicts: "set (Object_keys (hourlyRequests (recordRequest req res ms hour m)))
            = insert hour (set (Object_keys (hourlyRequests m))
                             - {Min (set (Object_keys (hourlyRequests m)))})
          \<and> length (Object_keys (hourlyRequests (recordRequest req res ms hour m))) = 168
          \<and> obj_get (hourlyRequests (recordRequest req res ms hour m)) hour = Some (Finite 1)
          \<and> (\<forall>k. k \<noteq> hour \<and> k \<noteq> Min (set (Object_keys (hourlyRequests m)))
                \<longrightarrow> obj_get (hourlyRequests (recordRequest req res ms hour m)) k
                      = obj_get (hourlyRequests m) k)"
    if d: "distinct (Object_keys (hourlyRequests m))"
      and l: "length (Object_keys (hourlyRequests m)) = 168"
      and new: "hour \<notin> set (Object_keys (hourlyRequests m))"
      and old: "Min (set (Object_keys (hourlyRequests m))) < hour"
  proof -
    let ?obj = "hourlyRequests m"
    let ?K = "set (Object_keys ?obj)"
    let ?r = "obj_set (obj_delete (obj_set ?obj hour (Finite 0)) (Min ?K)) hour (Finite 1)"
    from l have l': "length ?obj = 168"
      by (simp add: Object_keys_def)
    with new old have eq: "hourlyRequests (recordRequest req res ms hour m) = ?r"
      unfolding recordRequest_hourly by (intro hourly_tracking_new_full)
    have kr: "set (Object_keys ?r) = insert hour (?K - {Min ?K})"
      by (auto simp: keys_obj_set keys_obj_delete)
    from d have dr: "distinct (Object_keys ?r)"
      by (simp add: distinct_obj_set distinct_obj_delete)
    from l have "?K \<noteq> {}"
      by auto
    then have "Min ?K \<in> ?K"
      by (intro Min_in) auto
    moreover from d have "card ?K = length (Object_keys ?obj)"
      by (rule distinct_card)
    ultimately have "card (insert hour (?K - {Min ?K})) = 168"
      using l new by simp
    with dr kr have "length (Object_keys ?r) = 168"
      using distinct_card [of "Object_keys ?r"] by simp
    with kr show ?thesis
      unfolding eq by (simp add: obj_get_obj_set obj_get_obj_delete)
  qed
  from capped evicts show ?thesis
    by blast
qed


lemma hourly_tracking_earlier_hour:
  assumes d: "distinct (Object_keys obj)" and l: "length obj = 168"
    and early: "\<forall>k \<in> set (Object_keys obj). h < k"
  shows "set (Object_keys (hourly_tracking h obj)) = insert h (set (Object_keys obj))"
    and "length (Object_keys (hourly_tracking h obj)) = 169"
    and "obj_get (hourly_tracking h obj) h = Some NaN"
    and "\<forall>k. k \<noteq> h \<longrightarrow> obj_get (hourly_tracking h obj) k = obj_get obj k"
proof -
  let ?K = "set (Object_keys obj)"
  from early have new: "h \<notin> ?K"
    by auto
  then have none: "obj_get obj h = None"
    by (simp add: obj_get_None_iff)
  from new l have "length (obj_set obj h (Finite 0)) = 169"
    by (simp add: length_obj_set)
  then have "cleanOldHours (obj_set obj h (Finite 0))
      = obj_delete (obj_set obj h (Finite 0)) (Min (insert h ?K))"
    by (simp add: cleanOldHours_one keys_obj_set)
  moreover from early have "Min (insert h ?K) = h"
    by (intro Min_eqI) (auto intro: less_imp_le)
  ultimately have c: "cleanOldHours (obj_set obj h (Finite 0))
      = obj_delete (obj_set obj h (Finite 0)) h"
    by simp
  let ?r = "obj_set (obj_delete (obj_set obj h (Finite 0)) h) h NaN"
  have "obj_get (obj_delete (obj_set obj h (Finite 0)) h) h = None"
    by (simp add: obj_get_obj_delete)
  with none c have eq: "hourly_tracking h obj = ?r"
    by (simp add: hourly_tracking_def)
  show k: "set (Object_keys (hourly_tracking h obj)) = insert h ?K"
    unfolding eq by (auto simp: keys_obj_set keys_obj_delete)
  from d have dr: "distinct (Object_keys (hourly_tracking h obj))"
    unfolding eq by (simp add: distinct_obj_set distinct_obj_delete)
  from d have "card ?K = length (Object_keys obj)"
    by (rule distinct_card)
  with l new have "card (insert h ?K) = 169"
    by (simp add: Object_keys_def)
  with dr k show "length (Object_keys (hourly_tracking h obj)) = 169"
    using distinct_card [of "Object_keys (hourly_tracking h obj)"] by simp
  show "obj_get (hourly_tracking h obj) h = Some NaN"
    unfolding eq by (simp add: obj_get_obj_set)
  show "\<forall>k. k \<noteq> h \<longrightarrow> obj_get (hourly_tracking h obj) k = obj_get obj k"
    unfolding eq by (simp add: obj_get_obj_set obj_get_obj_delete)
qed

lemma recordRequests_health_snoc:
  "recordRequests (map health_call (hs @ [h])) m
     = recordRequest \<lparr>path = ''/health'', http_method = ''GET''\<rparr> \<lparr>statusCode = 200\<rparr> 3 h
         (recordRequests (map health_call hs) m)"
  by (simp add: recordRequests_def health_call_def)

lemma fill_forward:
  assumes "sorted_wrt (<) hs" and "length hs \<le> 168"
  shows "distinct (Object_keys (hourlyRequests (recordRequests (map health_call hs) Metrics_new)))
     \<and> set (Object_keys (hourlyRequests (recordRequests (map health_call hs) Metrics_new)))
         = set hs
     \<and> length (hourlyRequests (recordRequests (map health_call hs) Metrics_new)) = length hs"
  using assms
proof (induction hs rule: rev_induct)
  case Nil
  show ?case
    by (simp add: recordRequests_def Metrics_new_def Object_keys_def)
next
  case (snoc h hs)
  let ?obj = "hourlyRequests (recordRequests (map health_call hs) Metrics_new)"
  from snoc.prems have s: "sorted_wrt (<) hs" and later: "\<forall>x \<in> set hs. x < h"
    and len: "length hs < 168"
    by (auto simp: sorted_wrt_append)
  with snoc.IH have ih: "distinct (Object_keys ?obj)" "set (Object_keys ?obj) = set hs"
    "length ?obj = length hs"
    by auto
  from later ih(2) have new: "h \<notin> set (Object_keys ?obj)"
    by auto
  with len ih(3) have "hourly_tracking h ?obj = obj_set (obj_set ?obj h (Finite 0)) h (Finite 1)"
    by (intro hourly_tracking_new_small) auto
  with ih new show ?case
    unfolding recordRequests_health_snoc recordRequest_hourly
    by (simp add: distinct_obj_set keys_obj_set length_obj_set)
qed

lemma week_chain:
  "successively (<) (''2025-05-31T23'' # Object_keys week_of_hours)"
  by code_simp

lemma week_length: "length week_of_hours = 168"
  by code_simp

lemma week_sorted: "sorted_wrt (<) (''2025-05-31T23'' # Object_keys week_of_hours)"
  using week_chain by (simp add: successively_conv_sorted_wrt)

text \<open>
  C7 fails on the code.  A fresh instance records one request in each of the 168 hours
  from 2025-06-01T00 to 2025-06-07T23, and then one request while the clock, set back,
  reads 2025-05-31T23.  \<^verbatim>\<open>_cleanOldHours\<close> deletes the bucket just created for that hour,
  the smallest key of the 169, and the increment that follows creates it again as
  \<^verbatim>\<open>NaN\<close>.  The mapping holds 169 entries and every one of the 168 old keys is still
  there, where C7 has at most 168 entries and the oldest existing key evicted.
\<close>

theorem clock_set_back_leaves_169_buckets:
  "length (Object_keys (hourlyRequests (recordRequests week_calls Metrics_new))) = 168
   \<and> length (Object_keys (hourlyRequests
        (recordRequests (week_calls @ [health_call ''2025-05-31T23'']) Metrics_new))) = 169
   \<and> obj_get (hourlyRequests
        (recordRequests (week_calls @ [health_call ''2025-05-31T23'']) Metrics_new))
        ''2025-05-31T23'' = Some NaN
   \<and> set (Object_keys (hourlyRequests (recordRequests week_calls Metrics_new)))
       \<subseteq> set (Object_keys (hourlyRequests
            (recordRequests (week_calls @ [health_call ''2025-05-31T23'']) Metrics_new)))"
proof -
  let ?ks = "Object_keys week_of_hours"
  let ?obj = "hourlyRequests (recordRequests week_calls Metrics_new)"
  from week_sorted have s: "sorted_wrt (<) ?ks" and early: "\<forall>k \<in> set ?ks. ''2025-05-31T23'' < k"
    by simp_all
  have len: "length ?ks = 168"
    using week_length by (simp add: Object_keys_def)
  with s have f: "distinct (Object_keys ?obj)" "set (Object_keys ?obj) = set ?ks"
    "length ?obj = 168"
    using fill_forward [of ?ks] by (simp_all add: week_calls_def)
  from f(2) early have e: "\<forall>k \<in> set (Object_keys ?obj). ''2025-05-31T23'' < k"
    by simp
  have step: "hourlyRequests (recordRequests (week_calls @ [health_call ''2025-05-31T23''])
        Metrics_new) = hourly_tracking ''2025-05-31T23'' ?obj"
    using recordRequests_health_snoc [of ?ks "''2025-05-31T23''" Metrics_new]
    by (simp add: week_calls_def recordRequest_hourly)
  from f(3) have "length (Object_keys ?obj) = 168"
    by (simp add: Object_keys_def)
  then show ?thesis
    unfolding step using hourly_tracking_earlier_hour(1,2,3) [OF f(1) f(3) e] by auto
qed

theorem clock_set_back_leaves_169_buckets_witness:
  "length (Object_keys (hourlyRequests
      (recordRequests (week_calls @ [health_call ''2025-05-31T23'']) Metrics_new))) = 169"
  using clock_set_back_leaves_169_buckets by simp

end
